theory Spec2Isabelle
  imports Main "HOL-Library.Sublist"
begin

section \<open>Data model of \<open>agents/src/pipeline/agent_output.ts\<close>\<close>

text \<open>
  The file defines \<open>SynthesisHandle\<close> (one queued utterance), \<open>AgentOutput\<close> (the
  orchestrator with its \<open>#tasks\<close> array) and the two synthesis tasks. JavaScript runs
  them on one thread: an \<open>async\<close> body runs without interruption up to its next
  \<open>await\<close>, and is resumed later by the event loop. The embedding therefore has one
  program counter per \<open>async\<close> body, one function per body that runs it from its
  pending \<open>await\<close> to the next one, and a list of labels saying who runs when.

  The engine, the playout subsystem, the logger and the queue are outside the file. What
  can fail at an \<open>await\<close> is part of the state: the iteration of the engine's stream and
  of the input sequence (\<open>ending\<close>), the promise of a text source, and the writes to the
  queue (\<open>queue_errored\<close>). The calls that are not awaited (\<open>pushText\<close>, \<open>flush\<close>,
  \<open>endInput\<close>, \<open>getWriter\<close>, \<open>releaseLock\<close>, the logger) return normally. What the
  engine's stream yields is given to a run as a list: no theorem assumes that it depends
  on the text pushed.
\<close>

type_synonym frame = nat
  \<comment> \<open>\<open>AudioFrame\<close>: an opaque payload\<close>

datatype entry = Frame frame | FLUSH_SENTINEL
  \<comment> \<open>what the queue carries: \<open>AudioFrame | typeof SynthesisHandle.FLUSH_SENTINEL\<close>\<close>

datatype audio = Audio frame | END_OF_STREAM
  \<comment> \<open>what iterating the engine's stream yields: an object with a \<open>frame\<close>, or
     \<open>SynthesizeStream.END_OF_STREAM\<close>\<close>

datatype engine_call = PushText string | FlushCall | EndInput
  \<comment> \<open>\<open>ttsStream.pushText(text)\<close>, \<open>ttsStream.flush()\<close>, \<open>ttsStream.endInput()\<close>\<close>

datatype ending = Ends | Raises
  \<comment> \<open>how an asynchronous sequence behaves once its items are used up: its iterator
     reports done, or the pending \<open>next()\<close> rejects\<close>

datatype source = Text string | Deferred "string option" | Chunks "string list" ending
  \<comment> \<open>\<open>SpeechSource = AsyncIterable<string> | string | Promise<string>\<close>; a promise
     that rejects is \<open>Deferred None\<close>\<close>

datatype error = Error string
  \<comment> \<open>\<open>new Error(message)\<close>\<close>

datatype effect = Debug string | PlayoutPlay string | PlayoutInterrupt nat | IntFutResolve
  \<comment> \<open>calls that leave the handle, in the order they are made: the logger, the playout
     subsystem, a playout handle, and \<open>intFut.resolve()\<close>\<close>

datatype loop_pc =
  L_NotStarted | L_AwaitNext | L_AwaitWrite | L_AwaitFlushWrite | L_Finished | L_Threw
  \<comment> \<open>where a body that relays audio is suspended: in \<open>for await (... of ttsStream)\<close>,
     in \<open>await writer.write(audio.frame)\<close>, in \<open>await writer.write(FLUSH_SENTINEL)\<close>\<close>

datatype feed_pc = F_NotStarted | F_AwaitText | F_Finished | F_Threw
  \<comment> \<open>the body of \<open>streamSynthesisTask\<close>: suspended in \<open>for await (... of stream)\<close>\<close>

datatype sup_pc = S_AwaitSource | S_AwaitAny | S_Resolved | S_Threw
  \<comment> \<open>the body of \<open>#synthesize\<close>: suspended in \<open>await handle.ttsSource\<close>, in
     \<open>await Promise.any([task, handle.intFut.await])\<close>\<close>

record world =
  speechId :: string
  ttsSource :: source
  queue :: "entry list"
    \<comment> \<open>the entries \<open>queue.writable\<close> has accepted, in the order of the writes\<close>
  queue_errored :: bool
    \<comment> \<open>the stream is errored (its reader gave up): every write rejects\<close>
  playHandle :: "nat option"
  intFut_done :: bool
  playout_next :: nat
    \<comment> \<open>the playout subsystem: how many playout handles it has given to this handle\<close>
  effects :: "effect list"
  engine_in :: "engine_call list"
    \<comment> \<open>the calls the engine's stream has received, in order\<close>
  engine_out :: "audio list"
    \<comment> \<open>the events the engine's stream has still to yield\<close>
  engine_end :: ending
  text_in :: "string list"
    \<comment> \<open>the chunks an \<open>AsyncIterable\<close> source has still to yield\<close>
  text_end :: ending
  cancelled :: bool
    \<comment> \<open>\<open>let cancelled\<close> of the synthesis task\<close>
  string_pc :: loop_pc
  feed_pc :: feed_pc
  relay_pc :: loop_pc
  sup_pc :: sup_pc

section \<open>SynthesisHandle\<close>

definition interrupted :: "world \<Rightarrow> bool" where
  "interrupted w = intFut_done w"

definition validated :: "world \<Rightarrow> bool" where
  "validated w = (playHandle w \<noteq> None)"

text \<open>
  Modelled from the spec: \<open>AgentPlayout.play\<close> (\<open>agent_playout.ts\<close> is not among the
  sources). It accepts a speech identifier and the readable side of the queue and
  returns a playout handle; every call gives a new handle, here the next number.
\<close>

definition agentPlayout_play :: "string \<Rightarrow> world \<Rightarrow> nat \<times> world" where
  "agentPlayout_play sid w =
     (playout_next w,
      w\<lparr>playout_next := Suc (playout_next w), effects := effects w @ [PlayoutPlay sid]\<rparr>)"

text \<open>
  Modelled from the spec: \<open>PlayoutHandle.interrupt\<close> stops the playback of the segment;
  for the handle it is one call that leaves it.
\<close>

definition playoutHandle_interrupt :: "nat \<Rightarrow> world \<Rightarrow> world" where
  "playoutHandle_interrupt ph w = w\<lparr>effects := effects w @ [PlayoutInterrupt ph]\<rparr>"

text \<open>
  Modelled from the spec: \<open>Future.resolve\<close> (\<open>utils.ts\<close> is not among the sources) sets
  the one-shot signal; \<open>done\<close> reads it and nothing resets it.
\<close>

definition intFut_resolve :: "world \<Rightarrow> world" where
  "intFut_resolve w = w\<lparr>intFut_done := True, effects := effects w @ [IntFutResolve]\<rparr>"

definition logger_debug :: "string \<Rightarrow> world \<Rightarrow> world" where
  "logger_debug msg w = w\<lparr>effects := effects w @ [Debug msg]\<rparr>"

text \<open>\<open>play()\<close>, lines 52 to 59: the result (the error thrown or the handle returned) and
  the state it leaves.\<close>

definition play :: "world \<Rightarrow> (error + nat) \<times> world" where
  "play w =
     (if interrupted w then (Inl (Error ''synthesis was interrupted''), w)
      else (let (ph, w') = agentPlayout_play (speechId w) w
            in (Inr ph, w'\<lparr>playHandle := Some ph\<rparr>)))"

text \<open>\<open>interrupt()\<close>, lines 62 to 70.\<close>

definition interrupt :: "world \<Rightarrow> world" where
  "interrupt w =
     (if interrupted w then w
      else (let w1 = logger_debug ''interrupting synthesis/playout'' w;
                w2 = (case playHandle w1 of
                        None \<Rightarrow> w1
                      | Some ph \<Rightarrow> playoutHandle_interrupt ph w1)
            in intFut_resolve w2))"

text \<open>Calling \<open>play()\<close> \<open>n\<close> times in a row, whatever each call returns or throws.\<close>

fun plays :: "nat \<Rightarrow> world \<Rightarrow> world" where
  "plays 0 w = w"
| "plays (Suc n) w = plays n (snd (play w))"

section \<open>The synthesis tasks\<close>

text \<open>
  \<open>writer.write(entry)\<close>, the call: the stream takes the entry in the order of the calls,
  unless it is errored. The promise the call returns is awaited by the caller; it is
  fulfilled when the reader has made room (who reads is outside the file: a run resumes
  the writer when it pleases), and the bodies below look at \<open>queue_errored\<close> again when
  they are resumed from that \<open>await\<close>.
\<close>

definition writer_write :: "entry \<Rightarrow> world \<Rightarrow> world" where
  "writer_write e w = (if queue_errored w then w else w\<lparr>queue := queue w @ [e]\<rparr>)"

text \<open>
  \<open>stringSynthesisTask\<close>, lines 128 to 153. The executor of the promise runs at once, from
  \<open>let cancelled = false\<close> to the first \<open>next()\<close> of \<open>for await\<close> (line 142).
\<close>

definition stringSynthesisTask :: "string \<Rightarrow> world \<Rightarrow> world" where
  "stringSynthesisTask txt w =
     w\<lparr>cancelled := False,
       engine_in := engine_in w @ [PushText txt, FlushCall, EndInput],
       string_pc := L_AwaitNext\<rparr>"

text \<open>
  The same body, resumed from its pending \<open>await\<close> and run to the next one. A rejected
  \<open>await\<close> leaves the body by an exception: \<open>resolve()\<close> of line 151 is not reached and
  the executor's second argument (\<open>reject\<close>, named \<open>_\<close>) is never called. In the loop,
  \<open>audio.frame\<close> is read only where \<open>audio\<close> is not \<open>END_OF_STREAM\<close>: the last branch of
  the inner \<open>case\<close> is never taken.
\<close>

definition stringSynthesisTask_resume :: "world \<Rightarrow> world" where
  "stringSynthesisTask_resume w =
     (case string_pc w of
        L_AwaitNext \<Rightarrow>
          (case engine_out w of
             [] \<Rightarrow>
               (case engine_end w of
                  Raises \<Rightarrow> w\<lparr>string_pc := L_Threw\<rparr>
                | Ends \<Rightarrow> (writer_write FLUSH_SENTINEL w)\<lparr>string_pc := L_AwaitFlushWrite\<rparr>)
           | a # rest \<Rightarrow>
               (let w' = w\<lparr>engine_out := rest\<rparr> in
                if cancelled w' \<or> a = END_OF_STREAM
                then (writer_write FLUSH_SENTINEL w')\<lparr>string_pc := L_AwaitFlushWrite\<rparr>
                else (case a of
                        Audio f \<Rightarrow> (writer_write (Frame f) w')\<lparr>string_pc := L_AwaitWrite\<rparr>
                      | END_OF_STREAM \<Rightarrow> w')))
      | L_AwaitWrite \<Rightarrow>
          (if queue_errored w then w\<lparr>string_pc := L_Threw\<rparr>
           else w\<lparr>string_pc := L_AwaitNext\<rparr>)
      | L_AwaitFlushWrite \<Rightarrow>
          (if queue_errored w then w\<lparr>string_pc := L_Threw\<rparr>
           else w\<lparr>string_pc := L_Finished\<rparr>)
      | _ \<Rightarrow> w)"

text \<open>
  \<open>readGeneratedAudio\<close>, lines 169 to 179, called on line 180 without \<open>await\<close>: it runs to
  its first \<open>next()\<close> and the caller goes on.
\<close>

definition readGeneratedAudio :: "world \<Rightarrow> world" where
  "readGeneratedAudio w = w\<lparr>relay_pc := L_AwaitNext\<rparr>"

definition readGeneratedAudio_resume :: "world \<Rightarrow> world" where
  "readGeneratedAudio_resume w =
     (case relay_pc w of
        L_AwaitNext \<Rightarrow>
          (case engine_out w of
             [] \<Rightarrow>
               (case engine_end w of
                  Raises \<Rightarrow> w\<lparr>relay_pc := L_Threw\<rparr>
                | Ends \<Rightarrow> (writer_write FLUSH_SENTINEL w)\<lparr>relay_pc := L_AwaitFlushWrite\<rparr>)
           | a # rest \<Rightarrow>
               (let w' = w\<lparr>engine_out := rest\<rparr> in
                if cancelled w'
                then (writer_write FLUSH_SENTINEL w')\<lparr>relay_pc := L_AwaitFlushWrite\<rparr>
                else (case a of
                        END_OF_STREAM \<Rightarrow>
                          (writer_write FLUSH_SENTINEL w')\<lparr>relay_pc := L_AwaitFlushWrite\<rparr>
                      | Audio f \<Rightarrow> (writer_write (Frame f) w')\<lparr>relay_pc := L_AwaitWrite\<rparr>)))
      | L_AwaitWrite \<Rightarrow>
          (if queue_errored w then w\<lparr>relay_pc := L_Threw\<rparr>
           else w\<lparr>relay_pc := L_AwaitNext\<rparr>)
      | L_AwaitFlushWrite \<Rightarrow>
          (if queue_errored w then w\<lparr>relay_pc := L_Threw\<rparr>
           else w\<lparr>relay_pc := L_Finished\<rparr>)
      | _ \<Rightarrow> w)"

text \<open>
  \<open>streamSynthesisTask\<close>, lines 155 to 191: the executor runs from \<open>let cancelled = false\<close>
  through the call of \<open>readGeneratedAudio()\<close> to the first \<open>next()\<close> of the loop over
  \<open>stream\<close> (line 182).
\<close>

definition streamSynthesisTask :: "string list \<Rightarrow> ending \<Rightarrow> world \<Rightarrow> world" where
  "streamSynthesisTask chunks e w =
     (readGeneratedAudio (w\<lparr>cancelled := False\<rparr>))
       \<lparr>text_in := chunks, text_end := e, feed_pc := F_AwaitText\<rparr>"

text \<open>Lines 186 to 189: after the loop, \<open>flush()\<close>, \<open>endInput()\<close> and \<open>resolve()\<close>.\<close>

definition feed_exit :: "world \<Rightarrow> world" where
  "feed_exit w = w\<lparr>engine_in := engine_in w @ [FlushCall, EndInput], feed_pc := F_Finished\<rparr>"

definition streamSynthesisTask_resume :: "world \<Rightarrow> world" where
  "streamSynthesisTask_resume w =
     (case feed_pc w of
        F_AwaitText \<Rightarrow>
          (case text_in w of
             [] \<Rightarrow>
               (case text_end w of
                  Raises \<Rightarrow> w\<lparr>feed_pc := F_Threw\<rparr>
                | Ends \<Rightarrow> feed_exit w)
           | txt # rest \<Rightarrow>
               (let w' = w\<lparr>text_in := rest\<rparr> in
                if cancelled w' then feed_exit w'
                else w'\<lparr>engine_in := engine_in w' @ [PushText txt]\<rparr>))
      | _ \<Rightarrow> w)"

section \<open>The supervising task\<close>

text \<open>
  Modelled from the spec: \<open>gracefullyCancel\<close> (\<open>utils.ts\<close> is not among the sources).
  Cancelling is cooperative: the request runs the callback the task passed to
  \<open>onCancel\<close>, which for both synthesis tasks is \<open>cancelled = true\<close> (lines 132 to 134 and
  162 to 164), and \<open>gracefullyCancel\<close> returns a promise for the end of the task's
  unwinding. Lines 112 and 119 call it as a statement and drop that promise, so at both
  places only the request remains.
\<close>

definition gracefullyCancel :: "world \<Rightarrow> world" where
  "gracefullyCancel w = w\<lparr>cancelled := True\<rparr>"

text \<open>The promise of the synthesis task is fulfilled by \<open>resolve()\<close> (lines 151, 189) only.\<close>

definition task_fulfilled :: "world \<Rightarrow> bool" where
  "task_fulfilled w = (string_pc w = L_Finished \<or> feed_pc w = F_Finished)"

text \<open>
  The body of \<open>#synthesize\<close>, lines 102 to 124, resumed from its pending \<open>await\<close>
  (\<open>#\<close> cannot stand in a name here, so the private method is \<open>hash_synthesize\<close>).
  \<open>Promise.any\<close> is fulfilled as soon as one of its promises is, and rejects only when
  all of them have: a task that threw does not end the wait, the interrupt signal does.
\<close>

definition hash_synthesize_resume :: "world \<Rightarrow> world" where
  "hash_synthesize_resume w =
     (case sup_pc w of
        S_AwaitSource \<Rightarrow>
          (case ttsSource w of
             Text txt \<Rightarrow> (stringSynthesisTask txt w)\<lparr>sup_pc := S_AwaitAny\<rparr>
           | Deferred None \<Rightarrow> w\<lparr>sup_pc := S_Threw\<rparr>
           | Deferred (Some txt) \<Rightarrow> (stringSynthesisTask txt w)\<lparr>sup_pc := S_AwaitAny\<rparr>
           | Chunks chunks e \<Rightarrow> (streamSynthesisTask chunks e w)\<lparr>sup_pc := S_AwaitAny\<rparr>)
      | S_AwaitAny \<Rightarrow>
          (if task_fulfilled w \<or> intFut_done w
           then (let w' = (if intFut_done w then gracefullyCancel w else w)
                 in w'\<lparr>sup_pc := S_Resolved\<rparr>)
           else w)
      | _ \<Rightarrow> w)"

text \<open>
  Modelled from the spec: \<open>CancellablePromise.cancel\<close> (\<open>utils.ts\<close> is not among the
  sources), on the supervising task, as \<open>close()\<close> calls it. The request runs the
  callback of lines 111 to 113 once the body has registered it with \<open>onCancel\<close>.
\<close>

definition cancel :: "world \<Rightarrow> world" where
  "cancel w =
     (if sup_pc w = S_AwaitAny \<or> sup_pc w = S_Resolved then gracefullyCancel w else w)"

section \<open>Runs of one handle\<close>

text \<open>
  The state in which \<open>synthesize(speechId, ttsSource)\<close> leaves a new handle: the
  constructor has run, and the body of \<open>#synthesize\<close> is suspended in its first
  \<open>await\<close>. \<open>eo\<close> and \<open>ee\<close> are what the engine's stream is going to yield.
\<close>

definition new_world :: "string \<Rightarrow> source \<Rightarrow> audio list \<Rightarrow> ending \<Rightarrow> world" where
  "new_world sid src eo ee =
     \<lparr>speechId = sid, ttsSource = src, queue = [], queue_errored = False,
      playHandle = None, intFut_done = False, playout_next = 0, effects = [],
      engine_in = [], engine_out = eo, engine_end = ee, text_in = [], text_end = Ends,
      cancelled = False, string_pc = L_NotStarted, feed_pc = F_NotStarted,
      relay_pc = L_NotStarted, sup_pc = S_AwaitSource\<rparr>"

datatype label =
  CallPlay | CallInterrupt | CallCancel | QueueErrors
| RunSupervisor | RunString | RunFeed | RunRelay
  \<comment> \<open>what happens next on the event loop: the caller calls \<open>play()\<close> or \<open>interrupt()\<close>,
     \<open>close()\<close> cancels the supervising task, the queue's reader gives up, or one of
     the suspended bodies is resumed\<close>

fun step :: "label \<Rightarrow> world \<Rightarrow> world" where
  "step CallPlay w = snd (play w)"
| "step CallInterrupt w = interrupt w"
| "step CallCancel w = cancel w"
| "step QueueErrors w = w\<lparr>queue_errored := True\<rparr>"
| "step RunSupervisor w = hash_synthesize_resume w"
| "step RunString w = stringSynthesisTask_resume w"
| "step RunFeed w = streamSynthesisTask_resume w"
| "step RunRelay w = readGeneratedAudio_resume w"

definition run :: "label list \<Rightarrow> world \<Rightarrow> world" where
  "run ls w = fold step ls w"

section \<open>AgentOutput\<close>

text \<open>
  \<open>Array.prototype.indexOf\<close>: the first index holding the element, or \<open>-1\<close>.
\<close>

fun indexOf :: "'a list \<Rightarrow> 'a \<Rightarrow> int" where
  "indexOf [] x = - 1"
| "indexOf (y # ys) x =
     (if y = x then 0 else (let i = indexOf ys x in if i < 0 then - 1 else i + 1))"

text \<open>
  \<open>Array.prototype.splice(start)\<close> with its one argument: a negative \<open>start\<close> counts from
  the end, and with no \<open>deleteCount\<close> every element from there to the end is removed.
  The result is the array as the call leaves it.
\<close>

definition splice :: "int \<Rightarrow> 'a list \<Rightarrow> 'a list" where
  "splice start xs =
     (let len = int (length xs);
          actualStart = (if start < 0 then max (len + start) 0 else min start len)
      in take (nat actualStart) xs)"

datatype close_pc = C_NotCalled | C_AwaitAll "nat list" | C_Returned
  \<comment> \<open>the body of \<open>close()\<close>: suspended in \<open>await Promise.all(this.#tasks)\<close> over the array
     as it was at the call\<close>

record agent_output =
  handles :: "world list"
    \<comment> \<open>every handle \<open>synthesize\<close> has returned, each with its supervising task and
       its synthesis task; the supervising task of the handle at index \<open>i\<close> is task \<open>i\<close>\<close>
  tasks :: "nat list"
    \<comment> \<open>\<open>#tasks\<close>\<close>
  cancel_calls :: "nat list"
    \<comment> \<open>the supervising tasks on which \<open>close()\<close> has called \<open>cancel()\<close>\<close>
  close_pc :: close_pc

definition new_output :: agent_output where
  "new_output = \<lparr>handles = [], tasks = [], cancel_calls = [], close_pc = C_NotCalled\<rparr>"

text \<open>
  \<open>synthesize\<close>, lines 92 to 98: a new handle, its supervising task launched and run to
  its first \<open>await\<close> (\<open>new_world\<close>), the task pushed on \<open>#tasks\<close>. The handle returned is
  the last of \<open>handles\<close>. \<open>eo\<close> and \<open>ee\<close> are what the engine is going to yield for this
  handle. The \<open>finally\<close> callback registered on line 96 is \<open>task_finally\<close>; it runs in
  \<open>handle_step\<close>, when the task settles.
\<close>

definition synthesize ::
  "string \<Rightarrow> source \<Rightarrow> audio list \<Rightarrow> ending \<Rightarrow> agent_output \<Rightarrow> agent_output" where
  "synthesize sid src eo ee out =
     (let handle = new_world sid src eo ee;
          task = length (handles out)
      in out\<lparr>handles := handles out @ [handle], tasks := tasks out @ [task]\<rparr>)"

text \<open>The callback of line 96, \<open>() => this.#tasks.splice(this.#tasks.indexOf(task))\<close>.\<close>

definition task_finally :: "nat \<Rightarrow> agent_output \<Rightarrow> agent_output" where
  "task_finally task out = out\<lparr>tasks := splice (indexOf (tasks out) task) (tasks out)\<rparr>"

text \<open>
  A supervising task has settled when its body has called \<open>resolve()\<close> (line 123); no
  other line settles it.
\<close>

definition task_settled :: "agent_output \<Rightarrow> nat \<Rightarrow> bool" where
  "task_settled out task =
     (task < length (handles out) \<and> sup_pc (handles out ! task) = S_Resolved)"

text \<open>
  One step of the handle at index \<open>i\<close>. When the step resolves the supervising task, its
  \<open>finally\<close> callback runs. The supervising task is held by \<open>AgentOutput\<close> alone, so
  \<open>cancel()\<close> is called on it by \<open>close()\<close> only.
\<close>

definition handle_step :: "nat \<Rightarrow> label \<Rightarrow> agent_output \<Rightarrow> agent_output" where
  "handle_step i l out =
     (if i < length (handles out) \<and> l \<noteq> CallCancel
      then (let w = handles out ! i;
                w' = step l w;
                out' = out\<lparr>handles := (handles out)[i := w']\<rparr>
            in if sup_pc w \<noteq> S_Resolved \<and> sup_pc w' = S_Resolved
               then task_finally i out' else out')
      else out)"

text \<open>
  \<open>close()\<close>, lines 87 to 90: \<open>cancel()\<close> on every element of \<open>#tasks\<close>, then the wait for
  \<open>Promise.all\<close> of the same array; resumed, it returns.
\<close>

definition close_call :: "agent_output \<Rightarrow> agent_output" where
  "close_call out =
     (case close_pc out of
        C_NotCalled \<Rightarrow>
          out\<lparr>handles :=
                fold (\<lambda>task hs. hs[task := cancel (hs ! task)]) (tasks out) (handles out),
              cancel_calls := cancel_calls out @ tasks out,
              close_pc := C_AwaitAll (tasks out)\<rparr>
      | _ \<Rightarrow> out)"

definition close_resume :: "agent_output \<Rightarrow> agent_output" where
  "close_resume out =
     (case close_pc out of
        C_AwaitAll ts \<Rightarrow>
          (if list_all (task_settled out) ts then out\<lparr>close_pc := C_Returned\<rparr> else out)
      | _ \<Rightarrow> out)"

datatype olabel =
  Synthesize string source "audio list" ending | Handle nat label | CloseCall | CloseResume
  \<comment> \<open>the caller calls \<open>synthesize\<close>, something happens to one of the handles, the caller
     calls \<open>close()\<close>, \<open>close()\<close> is resumed\<close>

fun ostep :: "olabel \<Rightarrow> agent_output \<Rightarrow> agent_output" where
  "ostep (Synthesize sid src eo ee) out = synthesize sid src eo ee out"
| "ostep (Handle i l) out = handle_step i l out"
| "ostep CloseCall out = close_call out"
| "ostep CloseResume out = close_resume out"

definition orun :: "olabel list \<Rightarrow> agent_output \<Rightarrow> agent_output" where
  "orun ls out = fold ostep ls out"

text \<open>The tasks in flight: launched and not yet settled.\<close>

definition in_flight :: "agent_output \<Rightarrow> nat list" where
  "in_flight out = filter (\<lambda>task. \<not> task_settled out task) [0..<length (handles out)]"

section \<open>Invariants of a run\<close>

text \<open>
  The predicates of this section are not in the source: they say what holds of the
  state between two resumptions, and the lemmas show that every step keeps them.

  The queue: the frames written so far, and the two shapes a queue can have.
\<close>

fun frames_of :: "entry list \<Rightarrow> frame list" where
  "frames_of [] = []"
| "frames_of (Frame f # q) = f # frames_of q"
| "frames_of (FLUSH_SENTINEL # q) = frames_of q"

definition frames_only :: "entry list \<Rightarrow> bool" where
  "frames_only q = (q = map Frame (frames_of q))"

definition frames_then_flush :: "entry list \<Rightarrow> bool" where
  "frames_then_flush q = (q = map Frame (frames_of q) @ [FLUSH_SENTINEL])"

text \<open>
  What holds while a body that relays audio is suspended at \<open>pc\<close>: \<open>eo\<close> is what the
  engine's stream had to yield at the start, \<open>q\<close> the queue, \<open>out\<close> what the stream has
  still to yield, \<open>err\<close> whether the queue is errored. At most one of the two bodies
  (\<open>stringSynthesisTask\<close>, \<open>readGeneratedAudio\<close>) is ever started; \<open>writer_pc\<close> is its
  program counter.
\<close>

fun loop_inv :: "loop_pc \<Rightarrow> audio list \<Rightarrow> entry list \<Rightarrow> audio list \<Rightarrow> bool \<Rightarrow> bool" where
  "loop_inv L_NotStarted eo q out err = (q = [] \<and> out = eo)"
| "loop_inv L_AwaitNext eo q out err = (frames_only q \<and> eo = map Audio (frames_of q) @ out)"
| "loop_inv L_AwaitWrite eo q out err =
     (frames_only q \<and> prefix (map Audio (frames_of q)) eo \<and>
      (err \<or> eo = map Audio (frames_of q) @ out))"
| "loop_inv L_AwaitFlushWrite eo q out err =
     (prefix (map Audio (frames_of q)) eo \<and> (frames_then_flush q \<or> err \<and> frames_only q))"
| "loop_inv L_Finished eo q out err =
     (prefix (map Audio (frames_of q)) eo \<and> frames_then_flush q)"
| "loop_inv L_Threw eo q out err =
     (prefix (map Audio (frames_of q)) eo \<and> (frames_only q \<or> frames_then_flush q))"

definition writer_pc :: "world \<Rightarrow> loop_pc" where
  "writer_pc w = (if string_pc w = L_NotStarted then relay_pc w else string_pc w)"

definition queue_inv :: "audio list \<Rightarrow> world \<Rightarrow> bool" where
  "queue_inv eo w =
     ((string_pc w = L_NotStarted \<or> relay_pc w = L_NotStarted) \<and>
      (sup_pc w = S_AwaitSource \<longrightarrow> string_pc w = L_NotStarted \<and> relay_pc w = L_NotStarted) \<and>
      loop_inv (writer_pc w) eo (queue w) (engine_out w) (queue_errored w))"

text \<open>
  The text feed of the incremental variant: the texts pushed so far, the two shapes of
  the calls the engine has received, and what holds while the feed is at \<open>pc\<close> (\<open>cs\<close> the
  chunks of the input, \<open>ei\<close> the calls received, \<open>ti\<close> the chunks still to be yielded,
  \<open>c\<close> the flag).
\<close>

fun pushes :: "engine_call list \<Rightarrow> string list" where
  "pushes [] = []"
| "pushes (PushText t # cs) = t # pushes cs"
| "pushes (FlushCall # cs) = pushes cs"
| "pushes (EndInput # cs) = pushes cs"

definition pushes_only :: "engine_call list \<Rightarrow> bool" where
  "pushes_only ei = (ei = map PushText (pushes ei))"

definition pushes_then_end :: "engine_call list \<Rightarrow> bool" where
  "pushes_then_end ei = (ei = map PushText (pushes ei) @ [FlushCall, EndInput])"

fun feed_shape :: "feed_pc \<Rightarrow> string list \<Rightarrow> engine_call list \<Rightarrow> string list \<Rightarrow> bool \<Rightarrow> bool" where
  "feed_shape F_NotStarted cs ei ti c = (ei = [])"
| "feed_shape F_AwaitText cs ei ti c = (pushes_only ei \<and> cs = pushes ei @ ti)"
| "feed_shape F_Finished cs ei ti c =
     (pushes_then_end ei \<and> (cs = pushes ei \<and> ti = [] \<or> c \<and> (\<exists>x. cs = pushes ei @ x # ti)))"
| "feed_shape F_Threw cs ei ti c = (pushes_only ei \<and> cs = pushes ei \<and> ti = [])"

definition feed_inv :: "string list \<Rightarrow> world \<Rightarrow> bool" where
  "feed_inv cs w =
     (string_pc w = L_NotStarted \<and> (\<exists>e. ttsSource w = Chunks cs e) \<and>
      (sup_pc w = S_AwaitSource \<longrightarrow> feed_pc w = F_NotStarted) \<and>
      feed_shape (feed_pc w) cs (engine_in w) (text_in w) (cancelled w))"



text \<open>
  \<open>close()\<close>, once called on the array \<open>ts\<close>: \<open>cancel()\<close> has been called on each of its
  tasks, and the call has returned only if each of them has settled.
\<close>

definition close_inv :: "nat list \<Rightarrow> agent_output \<Rightarrow> bool" where
  "close_inv ts out =
     (set ts \<subseteq> set (cancel_calls out) \<and>
      (case close_pc out of
         C_NotCalled \<Rightarrow> False
       | C_AwaitAll ts' \<Rightarrow> ts' = ts
       | C_Returned \<Rightarrow> list_all (task_settled out) ts))"

section \<open>Lemmas\<close>

subsection \<open>The frames in a queue, the pushes among the calls\<close>

lemma frames_of_append [simp]: "frames_of (q @ r) = frames_of q @ frames_of r"
  by (induction q rule: frames_of.induct) simp_all

lemma frames_of_map_Frame [simp]: "frames_of (map Frame fs) = fs"
  by (induction fs) simp_all

lemma frames_only_Nil [simp]: "frames_only []"
  by (simp add: frames_only_def)

lemma frames_only_snoc [simp]: "frames_only (q @ [Frame f]) = frames_only q"
  by (simp add: frames_only_def)

lemma frames_then_flush_snoc [simp]: "frames_then_flush (q @ [FLUSH_SENTINEL]) = frames_only q"
  by (simp add: frames_then_flush_def frames_only_def)

lemma pushes_append [simp]: "pushes (a @ b) = pushes a @ pushes b"
  by (induction a rule: pushes.induct) simp_all

lemma pushes_map_PushText [simp]: "pushes (map PushText ts) = ts"
  by (induction ts) simp_all

lemma pushes_only_Nil [simp]: "pushes_only []"
  by (simp add: pushes_only_def)

lemma pushes_only_snoc [simp]: "pushes_only (ei @ [PushText t]) = pushes_only ei"
  by (simp add: pushes_only_def)

lemma pushes_then_end_snoc [simp]: "pushes_then_end (ei @ [FlushCall, EndInput]) = pushes_only ei"
  by (simp add: pushes_then_end_def pushes_only_def)

subsection \<open>What each operation leaves alone\<close>

text \<open>
  Each operation touches few fields. These equations let the proofs of the invariants
  look only at the operation that matters.
\<close>

lemma play_fields [simp]:
  "queue (snd (play w)) = queue w" "engine_out (snd (play w)) = engine_out w"
  "queue_errored (snd (play w)) = queue_errored w" "string_pc (snd (play w)) = string_pc w"
  "relay_pc (snd (play w)) = relay_pc w" "feed_pc (snd (play w)) = feed_pc w"
  "sup_pc (snd (play w)) = sup_pc w" "cancelled (snd (play w)) = cancelled w"
  "engine_in (snd (play w)) = engine_in w" "text_in (snd (play w)) = text_in w"
  "ttsSource (snd (play w)) = ttsSource w" "intFut_done (snd (play w)) = intFut_done w"
  "text_end (snd (play w)) = text_end w" "engine_end (snd (play w)) = engine_end w"
  by (simp_all add: play_def agentPlayout_play_def Let_def)

lemma interrupt_fields [simp]:
  "queue (interrupt w) = queue w" "engine_out (interrupt w) = engine_out w"
  "queue_errored (interrupt w) = queue_errored w" "string_pc (interrupt w) = string_pc w"
  "relay_pc (interrupt w) = relay_pc w" "feed_pc (interrupt w) = feed_pc w"
  "sup_pc (interrupt w) = sup_pc w" "cancelled (interrupt w) = cancelled w"
  "engine_in (interrupt w) = engine_in w" "text_in (interrupt w) = text_in w"
  "ttsSource (interrupt w) = ttsSource w" "intFut_done (interrupt w) = True"
  "text_end (interrupt w) = text_end w" "engine_end (interrupt w) = engine_end w"
  by (simp_all add: interrupt_def interrupted_def intFut_resolve_def logger_debug_def
      playoutHandle_interrupt_def Let_def split: option.split)

lemma cancel_fields [simp]:
  "queue (cancel w) = queue w" "engine_out (cancel w) = engine_out w"
  "queue_errored (cancel w) = queue_errored w" "string_pc (cancel w) = string_pc w"
  "relay_pc (cancel w) = relay_pc w" "feed_pc (cancel w) = feed_pc w"
  "sup_pc (cancel w) = sup_pc w"
  "engine_in (cancel w) = engine_in w" "text_in (cancel w) = text_in w"
  "ttsSource (cancel w) = ttsSource w" "intFut_done (cancel w) = intFut_done w"
  "text_end (cancel w) = text_end w" "engine_end (cancel w) = engine_end w"
  by (simp_all add: cancel_def gracefullyCancel_def)

lemma feed_fields [simp]:
  "queue (streamSynthesisTask_resume w) = queue w"
  "engine_out (streamSynthesisTask_resume w) = engine_out w"
  "queue_errored (streamSynthesisTask_resume w) = queue_errored w"
  "string_pc (streamSynthesisTask_resume w) = string_pc w"
  "relay_pc (streamSynthesisTask_resume w) = relay_pc w"
  "sup_pc (streamSynthesisTask_resume w) = sup_pc w"
  "cancelled (streamSynthesisTask_resume w) = cancelled w"
  "ttsSource (streamSynthesisTask_resume w) = ttsSource w"
  "intFut_done (streamSynthesisTask_resume w) = intFut_done w"
  "text_end (streamSynthesisTask_resume w) = text_end w"
  "engine_end (streamSynthesisTask_resume w) = engine_end w"
  by (simp_all add: streamSynthesisTask_resume_def feed_exit_def Let_def
      split: feed_pc.split list.split ending.split)

lemma string_fields [simp]:
  "queue_errored (stringSynthesisTask_resume w) = queue_errored w"
  "relay_pc (stringSynthesisTask_resume w) = relay_pc w"
  "feed_pc (stringSynthesisTask_resume w) = feed_pc w"
  "sup_pc (stringSynthesisTask_resume w) = sup_pc w"
  "cancelled (stringSynthesisTask_resume w) = cancelled w"
  "engine_in (stringSynthesisTask_resume w) = engine_in w"
  "text_in (stringSynthesisTask_resume w) = text_in w"
  "ttsSource (stringSynthesisTask_resume w) = ttsSource w"
  "intFut_done (stringSynthesisTask_resume w) = intFut_done w"
  "text_end (stringSynthesisTask_resume w) = text_end w"
  "engine_end (stringSynthesisTask_resume w) = engine_end w"
  by (simp_all add: stringSynthesisTask_resume_def writer_write_def Let_def
      split: loop_pc.split list.split ending.split audio.split)

lemma relay_fields [simp]:
  "queue_errored (readGeneratedAudio_resume w) = queue_errored w"
  "string_pc (readGeneratedAudio_resume w) = string_pc w"
  "feed_pc (readGeneratedAudio_resume w) = feed_pc w"
  "sup_pc (readGeneratedAudio_resume w) = sup_pc w"
  "cancelled (readGeneratedAudio_resume w) = cancelled w"
  "engine_in (readGeneratedAudio_resume w) = engine_in w"
  "text_in (readGeneratedAudio_resume w) = text_in w"
  "ttsSource (readGeneratedAudio_resume w) = ttsSource w"
  "intFut_done (readGeneratedAudio_resume w) = intFut_done w"
  "text_end (readGeneratedAudio_resume w) = text_end w"
  "engine_end (readGeneratedAudio_resume w) = engine_end w"
  by (simp_all add: readGeneratedAudio_resume_def writer_write_def Let_def
      split: loop_pc.split list.split ending.split audio.split)

lemma sup_fields [simp]:
  "queue (hash_synthesize_resume w) = queue w"
  "engine_out (hash_synthesize_resume w) = engine_out w"
  "queue_errored (hash_synthesize_resume w) = queue_errored w"
  "ttsSource (hash_synthesize_resume w) = ttsSource w"
  "intFut_done (hash_synthesize_resume w) = intFut_done w"
  "engine_end (hash_synthesize_resume w) = engine_end w"
  by (simp_all add: hash_synthesize_resume_def stringSynthesisTask_def streamSynthesisTask_def
      readGeneratedAudio_def gracefullyCancel_def Let_def
      split: sup_pc.split source.split option.split)

lemma writer_pc_same [simp]:
  "writer_pc (snd (play w)) = writer_pc w" "writer_pc (interrupt w) = writer_pc w"
  "writer_pc (cancel w) = writer_pc w" "writer_pc (streamSynthesisTask_resume w) = writer_pc w"
  "writer_pc (w\<lparr>queue_errored := True\<rparr>) = writer_pc w"
  by (simp_all add: writer_pc_def)

lemma string_pc_started [simp]:
  "(string_pc (stringSynthesisTask_resume w) = L_NotStarted) = (string_pc w = L_NotStarted)"
  by (simp add: stringSynthesisTask_resume_def writer_write_def Let_def
      split: loop_pc.split list.split ending.split audio.split)


lemma feed_pc_started [simp]:
  "(feed_pc (streamSynthesisTask_resume w) = F_NotStarted) = (feed_pc w = F_NotStarted)"
  by (simp add: streamSynthesisTask_resume_def feed_exit_def Let_def
      split: feed_pc.split list.split ending.split)


lemma ttsSource_step [simp]: "ttsSource (step l w) = ttsSource w"
  by (cases l) simp_all

lemma ttsSource_run [simp]: "ttsSource (run ls w) = ttsSource w"
  unfolding run_def by (induction ls arbitrary: w) simp_all

lemma intFut_done_step: "intFut_done w \<Longrightarrow> intFut_done (step l w)"
  by (cases l) simp_all

lemma intFut_done_run: "intFut_done w \<Longrightarrow> intFut_done (run ls w)"
  unfolding run_def by (induction ls arbitrary: w) (simp_all add: intFut_done_step)

subsection \<open>SynthesisHandle\<close>

lemma interrupt_interrupt: "interrupt (interrupt w) = interrupt w"
  by (simp add: interrupt_def [of "interrupt w"] interrupted_def)

lemma plays_interrupted: "interrupted w \<Longrightarrow> plays n w = w"
  by (induction n) (simp_all add: play_def)

lemma play_once:
  "\<not> interrupted w \<Longrightarrow>
   snd (play w) = w\<lparr>playout_next := Suc (playout_next w),
                     effects := effects w @ [PlayoutPlay (speechId w)],
                     playHandle := Some (playout_next w)\<rparr>"
  by (simp add: play_def agentPlayout_play_def)

lemma plays_fresh:
  "\<not> interrupted w \<Longrightarrow>
   playHandle (plays (Suc n) w) = Some (playout_next w + n) \<and>
   playout_next (plays (Suc n) w) = playout_next w + Suc n \<and>
   effects (plays (Suc n) w) = effects w @ replicate (Suc n) (PlayoutPlay (speechId w)) \<and>
   \<not> interrupted (plays (Suc n) w)"
proof (induction n arbitrary: w)
  case 0
  then show ?case by (simp add: play_once interrupted_def)
next
  case (Suc n)
  let ?w1 = "snd (play w)"
  from Suc.prems have w1: "\<not> interrupted ?w1" "playout_next ?w1 = Suc (playout_next w)"
    "effects ?w1 = effects w @ [PlayoutPlay (speechId w)]" "speechId ?w1 = speechId w"
    by (simp_all add: play_once interrupted_def)
  have "plays (Suc (Suc n)) w = plays (Suc n) ?w1" by simp
  with Suc.IH [OF w1(1)] w1 show ?case
    by (simp add: replicate_append_same del: plays.simps)
qed

subsection \<open>The queue invariant holds in every run\<close>

text \<open>
  One lemma per label, by cases on the program counter of the body that is resumed;
  then induction on the list of labels.
\<close>

lemma loop_inv_errored: "loop_inv pc eo q out err \<Longrightarrow> loop_inv pc eo q out True"
  by (cases pc) auto

lemma queue_inv_new: "queue_inv eo (new_world sid src eo ee)"
  by (simp add: queue_inv_def writer_pc_def new_world_def)

lemma queue_inv_play: "queue_inv eo w \<Longrightarrow> queue_inv eo (snd (play w))"
  by (simp add: queue_inv_def)

lemma queue_inv_interrupt: "queue_inv eo w \<Longrightarrow> queue_inv eo (interrupt w)"
  by (simp add: queue_inv_def)

lemma queue_inv_cancel: "queue_inv eo w \<Longrightarrow> queue_inv eo (cancel w)"
  by (simp add: queue_inv_def)

lemma queue_inv_feed: "queue_inv eo w \<Longrightarrow> queue_inv eo (streamSynthesisTask_resume w)"
  by (simp add: queue_inv_def)

lemma queue_inv_errors: "queue_inv eo w \<Longrightarrow> queue_inv eo (w\<lparr>queue_errored := True\<rparr>)"
  by (auto simp add: queue_inv_def intro: loop_inv_errored)

lemma queue_inv_sup: "queue_inv eo w \<Longrightarrow> queue_inv eo (hash_synthesize_resume w)"
proof (cases "sup_pc w")
  case S_AwaitSource
  assume "queue_inv eo w"
  with S_AwaitSource show ?thesis
    by (auto simp add: queue_inv_def writer_pc_def hash_synthesize_resume_def stringSynthesisTask_def
        streamSynthesisTask_def readGeneratedAudio_def split: source.split option.split)
next
  case S_AwaitAny
  assume "queue_inv eo w"
  with S_AwaitAny show ?thesis
    by (auto simp add: queue_inv_def writer_pc_def hash_synthesize_resume_def gracefullyCancel_def)
next
  case S_Resolved
  assume "queue_inv eo w"
  with S_Resolved show ?thesis by (simp add: hash_synthesize_resume_def)
next
  case S_Threw
  assume "queue_inv eo w"
  with S_Threw show ?thesis by (simp add: hash_synthesize_resume_def)
qed

lemma queue_inv_string: "queue_inv eo w \<Longrightarrow> queue_inv eo (stringSynthesisTask_resume w)"
proof (cases "string_pc w")
  case L_NotStarted
  then show "queue_inv eo w \<Longrightarrow> ?thesis" by (simp add: stringSynthesisTask_resume_def)
next
  case L_AwaitNext
  assume "queue_inv eo w"
  with L_AwaitNext show ?thesis
    by (auto simp add: queue_inv_def writer_pc_def stringSynthesisTask_resume_def
        writer_write_def Let_def split: list.split ending.split audio.split)
next
  case L_AwaitWrite
  assume "queue_inv eo w"
  with L_AwaitWrite show ?thesis
    by (auto simp add: queue_inv_def writer_pc_def stringSynthesisTask_resume_def)
next
  case L_AwaitFlushWrite
  assume "queue_inv eo w"
  with L_AwaitFlushWrite show ?thesis
    by (auto simp add: queue_inv_def writer_pc_def stringSynthesisTask_resume_def)
next
  case L_Finished
  then show "queue_inv eo w \<Longrightarrow> ?thesis" by (simp add: stringSynthesisTask_resume_def)
next
  case L_Threw
  then show "queue_inv eo w \<Longrightarrow> ?thesis" by (simp add: stringSynthesisTask_resume_def)
qed

lemma queue_inv_relay: "queue_inv eo w \<Longrightarrow> queue_inv eo (readGeneratedAudio_resume w)"
proof (cases "relay_pc w")
  case L_NotStarted
  then show "queue_inv eo w \<Longrightarrow> ?thesis" by (simp add: readGeneratedAudio_resume_def)
next
  case L_AwaitNext
  assume "queue_inv eo w"
  with L_AwaitNext show ?thesis
    by (auto simp add: queue_inv_def writer_pc_def readGeneratedAudio_resume_def
        writer_write_def Let_def split: list.split ending.split audio.split)
next
  case L_AwaitWrite
  assume "queue_inv eo w"
  with L_AwaitWrite show ?thesis
    by (auto simp add: queue_inv_def writer_pc_def readGeneratedAudio_resume_def)
next
  case L_AwaitFlushWrite
  assume "queue_inv eo w"
  with L_AwaitFlushWrite show ?thesis
    by (auto simp add: queue_inv_def writer_pc_def readGeneratedAudio_resume_def)
next
  case L_Finished
  then show "queue_inv eo w \<Longrightarrow> ?thesis" by (simp add: readGeneratedAudio_resume_def)
next
  case L_Threw
  then show "queue_inv eo w \<Longrightarrow> ?thesis" by (simp add: readGeneratedAudio_resume_def)
qed

lemma queue_inv_step: "queue_inv eo w \<Longrightarrow> queue_inv eo (step l w)"
  by (cases l)
    (simp_all add: queue_inv_play queue_inv_interrupt queue_inv_cancel queue_inv_errors
      queue_inv_sup queue_inv_string queue_inv_feed queue_inv_relay)

lemma queue_inv_run: "queue_inv eo w \<Longrightarrow> queue_inv eo (run ls w)"
  unfolding run_def by (induction ls arbitrary: w) (simp_all add: queue_inv_step)

lemma queue_inv_shape:
  assumes "queue_inv eo w"
  shows "\<exists>fs. prefix (map Audio fs) eo \<and>
           (queue w = map Frame fs \<or> queue w = map Frame fs @ [FLUSH_SENTINEL]) \<and>
           (string_pc w = L_Finished \<or> relay_pc w = L_Finished \<longrightarrow>
              queue w = map Frame fs @ [FLUSH_SENTINEL])"
proof -
  let ?fs = "frames_of (queue w)"
  from assms have one: "string_pc w = L_NotStarted \<or> relay_pc w = L_NotStarted"
    and li: "loop_inv (writer_pc w) eo (queue w) (engine_out w) (queue_errored w)"
    by (simp_all add: queue_inv_def)
  have fin: "writer_pc w = L_Finished" if "string_pc w = L_Finished \<or> relay_pc w = L_Finished"
    using that one by (auto simp add: writer_pc_def)
  from li have "prefix (map Audio ?fs) eo \<and>
      (queue w = map Frame ?fs \<or> queue w = map Frame ?fs @ [FLUSH_SENTINEL]) \<and>
      (writer_pc w = L_Finished \<longrightarrow> queue w = map Frame ?fs @ [FLUSH_SENTINEL])"
    by (cases "writer_pc w") (auto simp add: frames_only_def frames_then_flush_def)
  with fin show ?thesis by blast
qed

subsection \<open>The feed invariant holds in every run of the incremental variant\<close>

lemma feed_shape_cancelled: "feed_shape pc cs ei ti c \<Longrightarrow> feed_shape pc cs ei ti True"
  by (cases pc) auto

lemma feed_inv_new: "feed_inv cs (new_world sid (Chunks cs e) eo ee)"
  by (simp add: feed_inv_def new_world_def)

lemma feed_inv_sup: "feed_inv cs w \<Longrightarrow> feed_inv cs (hash_synthesize_resume w)"
proof (cases "sup_pc w")
  case S_AwaitSource
  assume "feed_inv cs w"
  with S_AwaitSource show ?thesis
    by (auto simp add: feed_inv_def hash_synthesize_resume_def streamSynthesisTask_def
        readGeneratedAudio_def)
next
  case S_AwaitAny
  assume "feed_inv cs w"
  with S_AwaitAny show ?thesis
    by (auto simp add: feed_inv_def hash_synthesize_resume_def gracefullyCancel_def
        intro: feed_shape_cancelled)
next
  case S_Resolved
  then show "feed_inv cs w \<Longrightarrow> ?thesis" by (simp add: hash_synthesize_resume_def)
next
  case S_Threw
  then show "feed_inv cs w \<Longrightarrow> ?thesis" by (simp add: hash_synthesize_resume_def)
qed

lemma feed_inv_feed: "feed_inv cs w \<Longrightarrow> feed_inv cs (streamSynthesisTask_resume w)"
proof (cases "feed_pc w")
  case F_AwaitText
  assume "feed_inv cs w"
  with F_AwaitText show ?thesis
    by (auto simp add: feed_inv_def streamSynthesisTask_resume_def feed_exit_def Let_def
        split: list.split ending.split)
qed (simp_all add: streamSynthesisTask_resume_def)

lemma feed_inv_cancel: "feed_inv cs w \<Longrightarrow> feed_inv cs (cancel w)"
  by (auto simp add: feed_inv_def cancel_def gracefullyCancel_def intro: feed_shape_cancelled)

lemma feed_inv_string: "feed_inv cs w \<Longrightarrow> feed_inv cs (stringSynthesisTask_resume w)"
  by (simp add: feed_inv_def stringSynthesisTask_resume_def)

lemma feed_inv_step: "feed_inv cs w \<Longrightarrow> feed_inv cs (step l w)"
proof (cases l)
  case RunSupervisor
  then show "feed_inv cs w \<Longrightarrow> ?thesis" by (simp add: feed_inv_sup)
next
  case RunString
  then show "feed_inv cs w \<Longrightarrow> ?thesis" by (simp add: feed_inv_string)
next
  case RunFeed
  then show "feed_inv cs w \<Longrightarrow> ?thesis" by (simp add: feed_inv_feed)
next
  case CallCancel
  then show "feed_inv cs w \<Longrightarrow> ?thesis" by (simp add: feed_inv_cancel)
qed (simp_all add: feed_inv_def)

lemma feed_inv_run: "feed_inv cs w \<Longrightarrow> feed_inv cs (run ls w)"
  unfolding run_def by (induction ls arbitrary: w) (simp_all add: feed_inv_step)

lemma feed_inv_shape:
  assumes "feed_inv cs w"
  shows "\<exists>ps. prefix ps cs \<and>
           engine_in w =
             map PushText ps @ (if feed_pc w = F_Finished then [FlushCall, EndInput] else []) \<and>
           (feed_pc w = F_AwaitText \<longrightarrow> cs = ps @ text_in w) \<and>
           (feed_pc w = F_Finished \<longrightarrow>
              cs = ps \<and> text_in w = [] \<or> cancelled w \<and> (\<exists>x. cs = ps @ x # text_in w))"
proof -
  from assms have "feed_shape (feed_pc w) cs (engine_in w) (text_in w) (cancelled w)"
    by (simp add: feed_inv_def)
  then have "prefix (pushes (engine_in w)) cs \<and>
           engine_in w =
             map PushText (pushes (engine_in w)) @
               (if feed_pc w = F_Finished then [FlushCall, EndInput] else []) \<and>
           (feed_pc w = F_AwaitText \<longrightarrow> cs = pushes (engine_in w) @ text_in w) \<and>
           (feed_pc w = F_Finished \<longrightarrow>
              cs = pushes (engine_in w) \<and> text_in w = [] \<or>
              cancelled w \<and> (\<exists>x. cs = pushes (engine_in w) @ x # text_in w))"
    by (cases "feed_pc w") (auto simp add: pushes_only_def pushes_then_end_def)
  then show ?thesis by blast
qed

lemma feed_checks_flag:
  "cancelled v \<Longrightarrow> pushes (engine_in (step RunFeed v)) = pushes (engine_in v)"
  by (simp add: streamSynthesisTask_resume_def feed_exit_def Let_def
      split: feed_pc.split list.split ending.split)

lemma feed_exit_resolves:
  assumes "feed_pc w = F_AwaitText"
    and "text_in w = [] \<and> text_end w = Ends \<or> text_in w \<noteq> [] \<and> cancelled w"
  shows "task_fulfilled (step RunFeed w) \<and>
         engine_in (step RunFeed w) = engine_in w @ [FlushCall, EndInput] \<and>
         relay_pc (step RunFeed w) = relay_pc w \<and> queue (step RunFeed w) = queue w"
  using assms
  by (auto simp add: streamSynthesisTask_resume_def feed_exit_def task_fulfilled_def Let_def
      split: list.split)

subsection \<open>The supervisor invariant holds in every run\<close>

lemma feed_exit_signals:
  assumes "feed_pc v = F_AwaitText"
    and "text_in v = [] \<and> text_end v = Ends \<or> text_in v \<noteq> [] \<and> cancelled v"
  shows "feed_pc (step RunFeed v) = F_Finished \<and>
         engine_in (step RunFeed v) = engine_in v @ [FlushCall, EndInput]"
  using assms
  by (auto simp add: streamSynthesisTask_resume_def feed_exit_def Let_def split: list.split)






text \<open>
  Resumed from \<open>Promise.any\<close> with the interrupt signal set, the supervising task
  resolves in the same resumption: the synthesis task is asked to stop and is where it
  was.
\<close>

lemma supervisor_never_waits:
  assumes "sup_pc w = S_AwaitAny" and "intFut_done w"
  shows "sup_pc (step RunSupervisor w) = S_Resolved \<and> cancelled (step RunSupervisor w) \<and>
         string_pc (step RunSupervisor w) = string_pc w \<and>
         feed_pc (step RunSupervisor w) = feed_pc w \<and>
         relay_pc (step RunSupervisor w) = relay_pc w \<and>
         queue (step RunSupervisor w) = queue w"
  using assms by (simp add: hash_synthesize_resume_def gracefullyCancel_def)

subsection \<open>Where a failure lands\<close>

text \<open>
  Each body is left by an exception only for a cause of its own. A resumption of the
  relay, failing or not, changes nothing that the feed or the supervising task reads.
\<close>

lemma engine_end_step [simp]: "engine_end (step l w) = engine_end w"
  by (cases l) simp_all

lemma engine_end_run [simp]: "engine_end (run ls w) = engine_end w"
  unfolding run_def by (induction ls arbitrary: w) simp_all










subsection \<open>Evaluating a run\<close>

text \<open>The definitions a concrete run unfolds to.\<close>

lemmas run_simps = run_def new_world_def hash_synthesize_resume_def stringSynthesisTask_def
  streamSynthesisTask_def readGeneratedAudio_def stringSynthesisTask_resume_def
  readGeneratedAudio_resume_def streamSynthesisTask_resume_def feed_exit_def writer_write_def
  interrupt_def interrupted_def intFut_resolve_def logger_debug_def playoutHandle_interrupt_def
  gracefullyCancel_def cancel_def task_fulfilled_def Let_def

lemma relay_later:
  "let w1 = run [RunSupervisor, RunFeed, RunFeed]
              (new_world ''s1'' (Chunks [''a''] Ends) [Audio 1, END_OF_STREAM] Ends);
       w2 = run [RunSupervisor] w1;
       w3 = run [RunRelay, RunRelay, RunRelay, RunRelay] w2
   in task_fulfilled w1 \<and> engine_in w1 = [PushText ''a'', FlushCall, EndInput] \<and>
      relay_pc w1 = L_AwaitNext \<and> queue w1 = [] \<and>
      sup_pc w2 = S_Resolved \<and> queue w2 = [] \<and>
      queue w3 = [Frame 1, FLUSH_SENTINEL] \<and> relay_pc w3 = L_Finished"
  by (simp add: run_simps)


subsection \<open>AgentOutput\<close>

text \<open>
  What the callback of line 96 does to \<open>#tasks\<close>: a task that is listed goes, with
  every task pushed after it; for a task that is no longer listed, \<open>indexOf\<close> gives
  \<open>-1\<close> and the last task of the array goes. A supervising task that has resolved stays
  resolved, so \<open>close()\<close> itself, which calls \<open>cancel()\<close> on every task that is listed
  when it is called, returns only when each of them has settled.
\<close>

lemma indexOf_takeWhile:
  "indexOf xs x = (if x \<in> set xs then int (length (takeWhile (\<lambda>y. y \<noteq> x) xs)) else - 1)"
  by (induction xs) (auto simp add: Let_def)

lemma task_finally_listed:
  "task \<in> set (tasks out) \<Longrightarrow>
   tasks (task_finally task out) = takeWhile (\<lambda>t. t \<noteq> task) (tasks out)"
proof -
  assume "task \<in> set (tasks out)"
  then have "indexOf (tasks out) task = int (length (takeWhile (\<lambda>t. t \<noteq> task) (tasks out)))"
    by (simp add: indexOf_takeWhile)
  moreover have "length (takeWhile (\<lambda>t. t \<noteq> task) (tasks out)) \<le> length (tasks out)"
    by (rule length_takeWhile_le)
  ultimately show ?thesis
    by (simp add: task_finally_def splice_def Let_def min_def takeWhile_eq_take [symmetric])
qed

lemma task_finally_unlisted:
  "task \<notin> set (tasks out) \<Longrightarrow> tasks (task_finally task out) = butlast (tasks out)"
  by (simp add: task_finally_def splice_def indexOf_takeWhile Let_def butlast_conv_take
      max_def nat_diff_distrib)

lemma sup_resolved_step: "sup_pc w = S_Resolved \<Longrightarrow> sup_pc (step l w) = S_Resolved"
  by (cases l) (simp_all add: hash_synthesize_resume_def play_def agentPlayout_play_def
      interrupt_def intFut_resolve_def logger_debug_def playoutHandle_interrupt_def
      cancel_def gracefullyCancel_def stringSynthesisTask_resume_def
      streamSynthesisTask_resume_def readGeneratedAudio_resume_def writer_write_def
      feed_exit_def Let_def
      split: option.split loop_pc.split feed_pc.split list.split ending.split audio.split)

lemma task_settled_synthesize:
  "task_settled out t \<Longrightarrow> task_settled (synthesize sid src eo ee out) t"
  by (simp add: task_settled_def synthesize_def Let_def nth_append)

lemma task_settled_handle_step:
  "task_settled out t \<Longrightarrow> task_settled (handle_step i l out) t"
  by (auto simp add: task_settled_def handle_step_def task_finally_def Let_def nth_list_update
      sup_resolved_step)

lemma close_inv_call: "close_pc out = C_NotCalled \<Longrightarrow> close_inv (tasks out) (close_call out)"
  by (simp add: close_inv_def close_call_def)

lemma close_inv_step: "close_inv ts out \<Longrightarrow> close_inv ts (ostep l out)"
proof (cases l)
  case (Synthesize sid src eo ee)
  assume "close_inv ts out"
  moreover have "close_pc (synthesize sid src eo ee out) = close_pc out"
    "cancel_calls (synthesize sid src eo ee out) = cancel_calls out"
    by (simp_all add: synthesize_def Let_def)
  ultimately show ?thesis
    using Synthesize task_settled_synthesize [of out _ sid src eo ee]
    by (auto simp add: close_inv_def list_all_iff split: close_pc.splits)
next
  case (Handle i l')
  assume "close_inv ts out"
  moreover have "close_pc (handle_step i l' out) = close_pc out"
    "cancel_calls (handle_step i l' out) = cancel_calls out"
    by (simp_all add: handle_step_def task_finally_def Let_def)
  ultimately show ?thesis
    using Handle task_settled_handle_step [of out _ i l']
    by (auto simp add: close_inv_def list_all_iff split: close_pc.splits)
next
  case CloseCall
  then show "close_inv ts out \<Longrightarrow> ?thesis"
    by (auto simp add: close_inv_def close_call_def split: close_pc.splits)
next
  case CloseResume
  then show "close_inv ts out \<Longrightarrow> ?thesis"
    by (auto simp add: close_inv_def close_resume_def task_settled_def list_all_iff
        split: close_pc.splits)
qed

lemma close_inv_run: "close_inv ts out \<Longrightarrow> close_inv ts (orun ls out)"
  unfolding orun_def by (induction ls arbitrary: out) (simp_all add: close_inv_step)

lemma close_waits_for_listed_tasks:
  assumes "close_pc out = C_NotCalled"
    and "close_pc (orun ls (close_call out)) = C_Returned"
  shows "list_all (task_settled (orun ls (close_call out))) (tasks out) \<and>
         set (tasks out) \<subseteq> set (cancel_calls (orun ls (close_call out)))"
  using close_inv_run [OF close_inv_call [OF assms(1)], of ls] assms(2)
  by (simp add: close_inv_def)

lemma close_no_tasks:
  "close_pc out = C_NotCalled \<Longrightarrow> tasks out = [] \<Longrightarrow>
   close_pc (close_resume (close_call out)) = C_Returned"
  by (simp add: close_call_def close_resume_def)

section \<open>The claims\<close>

subsection \<open>SynthesisHandle\<close>

text \<open>
  C3. Once \<open>interrupt()\<close> has been called on a handle, every later call of \<open>play()\<close>,
  whatever has run in between, throws the error of line 54 (the code has no error class
  of its own: it is \<open>Error\<close> with the message \<open>synthesis was interrupted\<close>) and leaves
  the state as it found it: the playout subsystem is not called, so the queue's read
  side is not handed over, and \<open>#playHandle\<close> is not assigned.
\<close>

theorem C3_play_after_interrupt:
  "play (run ls (interrupt w)) =
     (Inl (Error ''synthesis was interrupted''), run ls (interrupt w))"
proof -
  have "intFut_done (run ls (interrupt w))"
    by (rule intFut_done_run) simp
  then show ?thesis
    by (simp add: play_def interrupted_def)
qed

text \<open>
  C8. \<open>interrupt()\<close> is idempotent: calling it \<open>n + 1\<close> times leaves the state that one
  call leaves, with the signal set, and a later call, whatever has run since the first,
  changes nothing. A call on a handle that is already interrupted adds no effect; the
  first effective call logs, forwards the interruption to the playout handle when there
  is one, and only then resolves the interrupt signal. The body has no \<open>throw\<close>, and
  its result here is a state, never an error.
\<close>

theorem C8_interrupt_idempotent:
  "(interrupt ^^ Suc n) w = interrupt w \<and>
   interrupt (run ls (interrupt w)) = run ls (interrupt w) \<and>
   interrupted (interrupt w) \<and>
   effects (interrupt w) =
     (if interrupted w then effects w
      else effects w @ [Debug ''interrupting synthesis/playout''] @
           (case playHandle w of None \<Rightarrow> [] | Some ph \<Rightarrow> [PlayoutInterrupt ph]) @
           [IntFutResolve])"
proof -
  have "(interrupt ^^ Suc n) w = interrupt w"
    by (induction n) (simp_all add: interrupt_interrupt)
  moreover have "intFut_done (run ls (interrupt w))"
    by (rule intFut_done_run) simp
  then have "interrupt (run ls (interrupt w)) = run ls (interrupt w)"
    by (simp add: interrupt_def interrupted_def)
  moreover have "interrupted (interrupt w)"
    by (simp add: interrupted_def)
  moreover have "effects (interrupt w) =
     (if interrupted w then effects w
      else effects w @ [Debug ''interrupting synthesis/playout''] @
           (case playHandle w of None \<Rightarrow> [] | Some ph \<Rightarrow> [PlayoutInterrupt ph]) @
           [IntFutResolve])"
    by (simp add: interrupt_def intFut_resolve_def logger_debug_def playoutHandle_interrupt_def
        Let_def split: option.split)
  ultimately show ?thesis by blast
qed

text \<open>
  C4, as the claim states it: \<open>playHandle\<close> is assigned at most once, however often
  \<open>play()\<close> is called. It fails on a new handle played twice: both calls return a playout
  handle, the field holds the first after the first call and the second after the
  second, and the playout subsystem has been given the queue twice.
\<close>

theorem C4_counterexample:
  "let w0 = new_world ''s1'' (Text ''hello'') [] Ends;
       w1 = snd (play w0);
       w2 = snd (play w1)
   in fst (play w0) = Inr 0 \<and> playHandle w1 = Some 0 \<and>
      fst (play w1) = Inr 1 \<and> playHandle w2 = Some 1 \<and>
      effects w2 = [PlayoutPlay ''s1'', PlayoutPlay ''s1'']"
  by (simp add: new_world_def play_def agentPlayout_play_def interrupted_def Let_def)

text \<open>
  C4, amended: every call of \<open>play()\<close> on a handle that is not interrupted registers the
  queue and assigns \<open>playHandle\<close> anew, so after \<open>n + 1\<close> calls the playout subsystem has
  been called \<open>n + 1\<close> times and the field holds the handle of the last call; on an
  interrupted handle no call of \<open>play()\<close> assigns it.
\<close>

theorem C4_assigned_by_every_play:
  "(\<not> interrupted w \<longrightarrow>
      playHandle (plays (Suc n) w) = Some (playout_next w + n) \<and>
      playout_next (plays (Suc n) w) = playout_next w + Suc n \<and>
      effects (plays (Suc n) w) = effects w @ replicate (Suc n) (PlayoutPlay (speechId w))) \<and>
   (interrupted w \<longrightarrow> plays n w = w)"
  using plays_fresh [of w n] plays_interrupted [of w n] by blast

theorem C4_witness:
  "\<not> interrupted (new_world ''s1'' (Text ''hello'') [] Ends) \<and>
   playHandle (plays (Suc 2) (new_world ''s1'' (Text ''hello'') [] Ends)) = Some 2 \<and>
   interrupted (interrupt (new_world ''s1'' (Text ''hello'') [] Ends)) \<and>
   playHandle (plays 3 (interrupt (new_world ''s1'' (Text ''hello'') [] Ends))) = None"
proof -
  let ?w = "new_world ''s1'' (Text ''hello'') [] Ends"
  have a: "\<not> interrupted ?w" by (simp add: new_world_def interrupted_def)
  have b: "interrupted (interrupt ?w)" by (simp add: interrupted_def)
  have c: "playHandle (interrupt ?w) = None"
    by (simp add: new_world_def interrupt_def interrupted_def intFut_resolve_def
        logger_debug_def Let_def)
  have d: "playout_next ?w = 0" by (simp add: new_world_def)
  from C4_assigned_by_every_play [of ?w 2] a d
  have "playHandle (plays (Suc 2) ?w) = Some 2" by simp
  moreover from C4_assigned_by_every_play [of "interrupt ?w" 3] b
  have "plays 3 (interrupt ?w) = interrupt ?w" by blast
  ultimately show ?thesis using a b c by simp
qed

subsection \<open>The synthesis tasks\<close>

text \<open>
  C1, as the claim states it: a synthesis task of either variant that has completed has
  written exactly one flush marker. It fails for \<open>streamSynthesisTask\<close>, whose promise is
  resolved by the text feed alone (line 189): once the input sequence has yielded its
  one chunk and ended, the task is fulfilled while the relay is still waiting for the
  engine's first event, and the queue is empty.
\<close>

theorem C1_counterexample:
  "let w = run [RunSupervisor, RunFeed, RunFeed]
             (new_world ''s1'' (Chunks [''hello''] Ends) [Audio 1, END_OF_STREAM] Ends)
   in task_fulfilled w \<and> feed_pc w = F_Finished \<and>
      engine_in w = [PushText ''hello'', FlushCall, EndInput] \<and>
      relay_pc w = L_AwaitNext \<and> queue w = []"
  by (simp add: run_simps)

text \<open>
  C1, amended. In every run of a handle, whatever the engine yields and wherever the
  caller interrupts, \<open>close()\<close> cancels or the queue breaks: the queue holds frames of
  the engine, in the engine's order from its first event on, followed by at most one
  flush marker, and nothing after the marker. Once the body that writes has run to its
  end (\<open>stringSynthesisTask\<close> resolved, or \<open>readGeneratedAudio\<close> of the incremental variant
  returned) the marker is there, exactly once and last.
\<close>

theorem C1_flush_marker_written_last:
  "let w = run ls (new_world sid src eo ee)
   in \<exists>fs. prefix (map Audio fs) eo \<and>
        (queue w = map Frame fs \<or> queue w = map Frame fs @ [FLUSH_SENTINEL]) \<and>
        (string_pc w = L_Finished \<or> relay_pc w = L_Finished \<longrightarrow>
           queue w = map Frame fs @ [FLUSH_SENTINEL])"
  unfolding Let_def by (rule queue_inv_shape) (rule queue_inv_run, rule queue_inv_new)

theorem C1_witness:
  "(let w = run [RunSupervisor, RunString, RunString, RunString, RunString]
              (new_world ''s1'' (Text ''hello world'') [Audio 1, END_OF_STREAM] Ends)
    in string_pc w = L_Finished \<and>
       (\<exists>fs. prefix (map Audio fs) [Audio 1, END_OF_STREAM] \<and>
          queue w = map Frame fs @ [FLUSH_SENTINEL])) \<and>
   (let w = run [RunSupervisor, RunFeed, RunRelay, CallInterrupt, RunSupervisor, RunRelay,
                 RunRelay, RunRelay]
              (new_world ''s2'' (Chunks [''a'', ''b''] Ends) [Audio 1, Audio 2, END_OF_STREAM] Ends)
    in cancelled w \<and> relay_pc w = L_Finished \<and>
       (\<exists>fs. prefix (map Audio fs) [Audio 1, Audio 2, END_OF_STREAM] \<and>
          queue w = map Frame fs @ [FLUSH_SENTINEL]))"
proof -
  let ?a = "run [RunSupervisor, RunString, RunString, RunString, RunString]
              (new_world ''s1'' (Text ''hello world'') [Audio 1, END_OF_STREAM] Ends)"
  let ?b = "run [RunSupervisor, RunFeed, RunRelay, CallInterrupt, RunSupervisor, RunRelay,
                 RunRelay, RunRelay]
              (new_world ''s2'' (Chunks [''a'', ''b''] Ends) [Audio 1, Audio 2, END_OF_STREAM] Ends)"
  have a: "string_pc ?a = L_Finished" by (simp add: run_simps)
  have b: "cancelled ?b" "relay_pc ?b = L_Finished" by (simp_all add: run_simps)
  from a C1_flush_marker_written_last
    [of "[RunSupervisor, RunString, RunString, RunString, RunString]" "''s1''"
      "Text ''hello world''" "[Audio 1, END_OF_STREAM]" Ends]
  have "\<exists>fs. prefix (map Audio fs) [Audio 1, END_OF_STREAM] \<and>
          queue ?a = map Frame fs @ [FLUSH_SENTINEL]"
    unfolding Let_def by blast
  moreover from b C1_flush_marker_written_last
    [of "[RunSupervisor, RunFeed, RunRelay, CallInterrupt, RunSupervisor, RunRelay,
          RunRelay, RunRelay]" "''s2''"
      "Chunks [''a'', ''b''] Ends" "[Audio 1, Audio 2, END_OF_STREAM]" Ends]
  have "\<exists>fs. prefix (map Audio fs) [Audio 1, Audio 2, END_OF_STREAM] \<and>
          queue ?b = map Frame fs @ [FLUSH_SENTINEL]"
    unfolding Let_def by blast
  ultimately show ?thesis
    unfolding Let_def using a b by blast
qed

text \<open>
  C7. For every input sequence \<open>cs\<close> of the incremental variant and every run: the engine
  has received pushes of a prefix \<open>ps\<close> of \<open>cs\<close>, in order, followed by \<open>flush()\<close> and
  \<open>endInput()\<close> exactly when the feed loop has exited normally, each once and after all
  the pushes. While the feed waits, every chunk pulled has been pushed. At the exit
  either every chunk of the input has been pushed, or the flag is raised and the one
  chunk on which the loop saw it, with what the input has not yet yielded, is all that
  was not pushed. A resumption of the feed with the flag raised pushes nothing: the flag
  is read before each push. Whenever the loop exits, because the input has ended or
  because a chunk arrives while the flag is raised, the same resumption sends the two
  signals.
\<close>

theorem C7_feed_order:
  "let w = run ls (new_world sid (Chunks cs e) eo ee)
   in (\<exists>ps. prefix ps cs \<and>
         engine_in w =
           map PushText ps @ (if feed_pc w = F_Finished then [FlushCall, EndInput] else []) \<and>
         (feed_pc w = F_AwaitText \<longrightarrow> cs = ps @ text_in w) \<and>
         (feed_pc w = F_Finished \<longrightarrow>
            cs = ps \<and> text_in w = [] \<or> cancelled w \<and> (\<exists>x. cs = ps @ x # text_in w))) \<and>
      (\<forall>v. cancelled v \<longrightarrow> pushes (engine_in (step RunFeed v)) = pushes (engine_in v)) \<and>
      (\<forall>v. feed_pc v = F_AwaitText \<and>
            (text_in v = [] \<and> text_end v = Ends \<or> text_in v \<noteq> [] \<and> cancelled v) \<longrightarrow>
            feed_pc (step RunFeed v) = F_Finished \<and>
            engine_in (step RunFeed v) = engine_in v @ [FlushCall, EndInput])"
proof -
  have "feed_inv cs (run ls (new_world sid (Chunks cs e) eo ee))"
    by (rule feed_inv_run) (rule feed_inv_new)
  from feed_inv_shape [OF this] feed_checks_flag feed_exit_signals show ?thesis
    unfolding Let_def by blast
qed

theorem C7_witness:
  "(let v = run [RunSupervisor, RunFeed, RunFeed, CallInterrupt, RunSupervisor]
              (new_world ''s1'' (Chunks [''a'', ''b'', ''c''] Ends) [] Ends);
        w = step RunFeed v
    in feed_pc v = F_AwaitText \<and> text_in v = [''c''] \<and> cancelled v \<and>
       feed_pc w = F_Finished \<and> cancelled w \<and>
       engine_in w = [PushText ''a'', PushText ''b'', FlushCall, EndInput] \<and>
       (\<exists>ps. prefix ps [''a'', ''b'', ''c''] \<and>
          engine_in w = map PushText ps @ [FlushCall, EndInput] \<and>
          ([''a'', ''b'', ''c''] = ps \<and> text_in w = [] \<or>
           cancelled w \<and> (\<exists>x. [''a'', ''b'', ''c''] = ps @ x # text_in w))) \<and>
       pushes (engine_in w) = pushes (engine_in v)) \<and>
   (let w = run [RunSupervisor, RunFeed]
              (new_world ''s1'' (Chunks [''a'', ''b'', ''c''] Ends) [] Ends)
    in feed_pc w = F_AwaitText \<and>
       (\<exists>ps. engine_in w = map PushText ps \<and> [''a'', ''b'', ''c''] = ps @ text_in w))"
proof -
  let ?lv = "[RunSupervisor, RunFeed, RunFeed, CallInterrupt, RunSupervisor]"
  let ?la = "[RunSupervisor, RunFeed, RunFeed, CallInterrupt, RunSupervisor, RunFeed]"
  let ?lb = "[RunSupervisor, RunFeed]"
  let ?w0 = "new_world ''s1'' (Chunks [''a'', ''b'', ''c''] Ends) [] Ends"
  have v: "feed_pc (run ?lv ?w0) = F_AwaitText" "text_in (run ?lv ?w0) = [''c'']"
    "cancelled (run ?lv ?w0)" "engine_in (run ?lv ?w0) = [PushText ''a'', PushText ''b'']"
    by (simp_all add: run_simps)
  have b: "feed_pc (run ?lb ?w0) = F_AwaitText"
    by (simp add: run_simps)
  have eq: "run ?la ?w0 = step RunFeed (run ?lv ?w0)"
    by (simp add: run_def)
  note ta = C7_feed_order [of ?la "''s1''" "[''a'', ''b'', ''c'']" Ends "[]" Ends, unfolded Let_def]
  note tb = C7_feed_order [of ?lb "''s1''" "[''a'', ''b'', ''c'']" Ends "[]" Ends, unfolded Let_def]
  from ta v have a: "feed_pc (run ?la ?w0) = F_Finished"
    "engine_in (run ?la ?w0) = [PushText ''a'', PushText ''b'', FlushCall, EndInput]"
    unfolding eq by auto
  have ca: "cancelled (run ?la ?w0)"
    unfolding eq using v by simp
  from ta a have a1: "\<exists>ps. prefix ps [''a'', ''b'', ''c''] \<and>
          engine_in (run ?la ?w0) = map PushText ps @ [FlushCall, EndInput] \<and>
          ([''a'', ''b'', ''c''] = ps \<and> text_in (run ?la ?w0) = [] \<or>
           cancelled (run ?la ?w0) \<and> (\<exists>x. [''a'', ''b'', ''c''] = ps @ x # text_in (run ?la ?w0)))"
    by auto
  from ta v have a2: "pushes (engine_in (run ?la ?w0)) = pushes (engine_in (run ?lv ?w0))"
    unfolding eq by blast
  from tb b have b1: "\<exists>ps. engine_in (run ?lb ?w0) = map PushText ps \<and>
      [''a'', ''b'', ''c''] = ps @ text_in (run ?lb ?w0)"
    by auto
  from v a ca a1 a2 b b1 show ?thesis
    unfolding Let_def eq [symmetric] by blast
qed

text \<open>
  C10. Whenever the feed loop of \<open>streamSynthesisTask\<close> exits (the input has ended, or a
  chunk arrives while the flag is raised), the same resumption sends \<open>flush()\<close> and
  \<open>endInput()\<close> and fulfils the task, whatever the relay is doing, and writes nothing. In
  the run below the task, and then the supervising task, are fulfilled while the queue
  is empty; the frame and the flush marker are written afterwards.
\<close>

theorem C10_task_resolves_before_relay:
  "(\<forall>w. feed_pc w = F_AwaitText \<and>
        (text_in w = [] \<and> text_end w = Ends \<or> text_in w \<noteq> [] \<and> cancelled w) \<longrightarrow>
        task_fulfilled (step RunFeed w) \<and>
        engine_in (step RunFeed w) = engine_in w @ [FlushCall, EndInput] \<and>
        relay_pc (step RunFeed w) = relay_pc w \<and> queue (step RunFeed w) = queue w) \<and>
   (let w1 = run [RunSupervisor, RunFeed, RunFeed]
              (new_world ''s1'' (Chunks [''a''] Ends) [Audio 1, END_OF_STREAM] Ends);
        w2 = run [RunSupervisor] w1;
        w3 = run [RunRelay, RunRelay, RunRelay, RunRelay] w2
    in task_fulfilled w1 \<and> engine_in w1 = [PushText ''a'', FlushCall, EndInput] \<and>
       relay_pc w1 = L_AwaitNext \<and> queue w1 = [] \<and>
       sup_pc w2 = S_Resolved \<and> queue w2 = [] \<and>
       queue w3 = [Frame 1, FLUSH_SENTINEL] \<and> relay_pc w3 = L_Finished)"
  using feed_exit_resolves relay_later by blast

theorem C10_witness:
  "let w = run [RunSupervisor, RunFeed]
             (new_world ''s1'' (Chunks [''a''] Ends) [Audio 1, END_OF_STREAM] Ends)
   in feed_pc w = F_AwaitText \<and> text_in w = [] \<and> text_end w = Ends \<and>
      relay_pc w = L_AwaitNext \<and> queue w = [] \<and>
      task_fulfilled (step RunFeed w) \<and>
      engine_in (step RunFeed w) = [PushText ''a'', FlushCall, EndInput] \<and>
      relay_pc (step RunFeed w) = L_AwaitNext \<and> queue (step RunFeed w) = []"
proof -
  let ?w = "run [RunSupervisor, RunFeed]
             (new_world ''s1'' (Chunks [''a''] Ends) [Audio 1, END_OF_STREAM] Ends)"
  have h: "feed_pc ?w = F_AwaitText" "text_in ?w = []" "text_end ?w = Ends"
    "relay_pc ?w = L_AwaitNext" "queue ?w = []" "engine_in ?w = [PushText ''a'']"
    by (simp_all add: run_simps)
  from C10_task_resolves_before_relay have
    "feed_pc ?w = F_AwaitText \<and>
       (text_in ?w = [] \<and> text_end ?w = Ends \<or> text_in ?w \<noteq> [] \<and> cancelled ?w) \<longrightarrow>
     task_fulfilled (step RunFeed ?w) \<and>
     engine_in (step RunFeed ?w) = engine_in ?w @ [FlushCall, EndInput] \<and>
     relay_pc (step RunFeed ?w) = relay_pc ?w \<and> queue (step RunFeed ?w) = queue ?w"
    by blast
  with h show ?thesis
    unfolding Let_def by simp
qed

subsection \<open>The supervising task\<close>

text \<open>
  C2. The claim: when the interrupt signal is set while the synthesis task is running,
  the supervising task cancels it and does not resolve before the cancelled task has
  unwound. The code at a handle with a string source whose engine has a frame to
  deliver: the supervising task starts the string task, the caller interrupts, and the
  supervising task, resumed from \<open>Promise.any\<close>, calls \<open>gracefullyCancel(task)\<close> without
  awaiting it and resolves. The string task is then still suspended in its loop; it has
  written nothing, not even the flush marker of its exit.
\<close>

theorem C2_supervisor_resolves_first:
  "let w = run [RunSupervisor, CallInterrupt, RunSupervisor]
             (new_world ''s1'' (Text ''hello'') [Audio 1, END_OF_STREAM] Ends)
   in sup_pc w = S_Resolved \<and> cancelled w \<and> string_pc w = L_AwaitNext \<and> queue w = []"
  by (simp add: run_def new_world_def hash_synthesize_resume_def stringSynthesisTask_def
      interrupt_def interrupted_def intFut_resolve_def logger_debug_def gracefullyCancel_def
      task_fulfilled_def Let_def)




subsection \<open>AgentOutput\<close>

text \<open>
  C5. The claim: the completion of a task removes that task from the live set and no
  other. The code after two calls of \<open>synthesize\<close>, when the first handle's synthesis
  has run to its end and its supervising task resolves: \<open>indexOf\<close> gives 0 and
  \<open>splice(0)\<close> removes everything from there on, so \<open>#tasks\<close> is empty while the second
  task is still in flight. And after three calls: the completion of the second task
  removes the third with it, and the completion of the third, which is no longer listed
  (\<open>indexOf\<close> gives \<open>-1\<close>), removes the first, the only one of the three still in
  flight.
\<close>

theorem C5_tasks_spliced:
  "(let out = orun [Synthesize ''s0'' (Text ''hi'') [END_OF_STREAM] Ends,
                    Synthesize ''s1'' (Text ''there'') [Audio 1, END_OF_STREAM] Ends,
                    Handle 0 RunSupervisor, Handle 1 RunSupervisor,
                    Handle 0 RunString, Handle 0 RunString, Handle 0 RunSupervisor] new_output
    in tasks out = [] \<and> in_flight out = [1]) \<and>
   (let out = orun [Synthesize ''s0'' (Text ''hi'') [Audio 1, END_OF_STREAM] Ends,
                    Synthesize ''s1'' (Text ''there'') [END_OF_STREAM] Ends,
                    Synthesize ''s2'' (Text ''you'') [END_OF_STREAM] Ends,
                    Handle 0 RunSupervisor, Handle 1 RunSupervisor, Handle 2 RunSupervisor,
                    Handle 1 RunString, Handle 1 RunString, Handle 1 RunSupervisor] new_output;
        out' = orun [Handle 2 RunString, Handle 2 RunString, Handle 2 RunSupervisor] out
    in tasks out = [0] \<and> in_flight out = [0, 2] \<and> tasks out' = [] \<and> in_flight out' = [0])"
  by code_simp

text \<open>
  C9. The claim: \<open>close()\<close> asks every live task to cancel and returns only after each of
  them has completed. The code in the first state of C5: \<open>close()\<close> finds \<open>#tasks\<close> empty,
  cancels nothing and returns. The second handle's supervising task is still waiting
  in \<open>Promise.any\<close>, its synthesis task is in its loop with the flag down, and it goes on
  writing frames after \<open>close()\<close> has returned.
\<close>

theorem C9_close_returns_early:
  "let out = orun [Synthesize ''s0'' (Text ''hi'') [END_OF_STREAM] Ends,
                   Synthesize ''s1'' (Text ''there'') [Audio 1, END_OF_STREAM] Ends,
                   Handle 0 RunSupervisor, Handle 1 RunSupervisor,
                   Handle 0 RunString, Handle 0 RunString, Handle 0 RunSupervisor,
                   CloseCall, CloseResume] new_output;
       out' = orun [Handle 1 RunString] out
   in close_pc out = C_Returned \<and> in_flight out = [1] \<and> cancel_calls out = [] \<and>
      sup_pc (handles out ! 1) = S_AwaitAny \<and> string_pc (handles out ! 1) = L_AwaitNext \<and>
      \<not> cancelled (handles out ! 1) \<and> queue (handles out' ! 1) = [Frame 1]"
  by code_simp

end
